theory Spec2Isabelle
  imports Main
begin

section \<open>The host document\<close>

text \<open>
  The component \<^verbatim>\<open>Ink.UI.SortableList\<close> (file \<^verbatim>\<open>ink.sortablelist.js\<close>) works on a live
  document through the host modules \<^verbatim>\<open>Ink.Dom.Element\<close>, \<^verbatim>\<open>Ink.Dom.Css\<close> and
  \<^verbatim>\<open>Ink.Dom.Selector\<close>. Nodes are compared by reference (\<^verbatim>\<open>===\<close>); a node is modelled by
  its identity. The document records the child sequence of the parent that hosts the
  sortable items, the class names of every node and of \<^verbatim>\<open>document.documentElement\<close>, and
  the next unused node identity. The items of a sortable list are siblings; every other
  node (a clone that is not inserted yet, \<^verbatim>\<open>document.documentElement\<close>) is outside
  \<open>children\<close> and has no parent in the model.
\<close>

type_synonym node = nat

record document =
  children :: "node list"
  classes :: "node \<Rightarrow> string set"
  rootClasses :: "string set"
  nextNode :: node

text \<open>
  A host primitive that is handed something outside what section 6 of the specification
  describes (an absent node, or a reference node without a parent) is a fault; the fault
  is a value, and the state reached before it is kept.
\<close>

datatype error = AbsentNode | DetachedReference

fun nextSibling :: "node \<Rightarrow> node list \<Rightarrow> node option" where
  "nextSibling t [] = None"
| "nextSibling t [x] = None"
| "nextSibling t (x # y # ys) = (if x = t then Some y else nextSibling t (y # ys))"

text \<open>
  Modelled from the spec: the tree mutation ``insert-before'' of section 6 (the host's
  \<^verbatim>\<open>parentNode.insertBefore(node, reference)\<close>, which is not part of the component's file).
  The node is taken out of the child sequence if it is in it and put back in front of the
  reference; with no reference it goes to the end; a node inserted before itself stays
  where it is.
\<close>

definition parent_insertBefore :: "node \<Rightarrow> node option \<Rightarrow> node list \<Rightarrow> node list" where
  "parent_insertBefore n ref xs =
     (case ref of
        None \<Rightarrow> removeAll n xs @ [n]
      | Some r \<Rightarrow>
          if r = n then xs
          else takeWhile (\<lambda>x. x \<noteq> r) (removeAll n xs) @ n # dropWhile (\<lambda>x. x \<noteq> r) (removeAll n xs))"

text \<open>
  Modelled from the spec: \<^verbatim>\<open>Element.insertBefore(newElm, targetElm)\<close>, the ``insert-before''
  of section 6: \<open>newElm\<close> becomes the sibling immediately before \<open>targetElm\<close>.
\<close>

fun Element_insertBefore :: "node option \<Rightarrow> node option \<Rightarrow> document \<Rightarrow> error + document" where
  "Element_insertBefore (Some n) (Some t) d =
     (if t \<in> set (children d)
      then Inr (d\<lparr>children := parent_insertBefore n (Some t) (children d)\<rparr>)
      else Inl DetachedReference)"
| "Element_insertBefore _ _ d = Inl AbsentNode"

text \<open>
  Modelled from the spec: \<^verbatim>\<open>Element.insertAfter(newElm, targetElm)\<close>, the ``insert-after''
  of section 6: \<open>newElm\<close> becomes the sibling immediately after \<open>targetElm\<close>, that is, it is
  inserted before the next sibling of \<open>targetElm\<close>, or appended when there is none.
\<close>

fun Element_insertAfter :: "node option \<Rightarrow> node option \<Rightarrow> document \<Rightarrow> error + document" where
  "Element_insertAfter (Some n) (Some t) d =
     (if t \<in> set (children d)
      then Inr (d\<lparr>children := parent_insertBefore n (nextSibling t (children d)) (children d)\<rparr>)
      else Inl DetachedReference)"
| "Element_insertAfter _ _ d = Inl AbsentNode"

text \<open>
  Modelled from the spec: \<^verbatim>\<open>Element.remove(elm)\<close>, the ``remove'' of section 6. Section 4.3
  makes \<^verbatim>\<open>stopMoving\<close> safe from Idle, where it hands the absent placeholder to this
  primitive, and the component calls it on every \<^verbatim>\<open>mouseleave\<close>; so an absent node, and a
  node without parent, are left alone.
\<close>

fun Element_remove :: "node option \<Rightarrow> document \<Rightarrow> document" where
  "Element_remove None d = d"
| "Element_remove (Some n) d = d\<lparr>children := removeAll n (children d)\<rparr>"

text \<open>
  Modelled from the spec: ``clone-node'' of section 6 (\<^verbatim>\<open>cloneNode(true)\<close>): a new node
  without parent that carries the class names of the original.
\<close>

definition cloneNode :: "node \<Rightarrow> document \<Rightarrow> node \<times> document" where
  "cloneNode n d =
     (nextNode d, d\<lparr>classes := (classes d)(nextNode d := classes d n), nextNode := Suc (nextNode d)\<rparr>)"

text \<open>
  Modelled from the spec: ``add/remove a named visual marker on an element'' of section 6
  (\<^verbatim>\<open>Css.addClassName\<close>, \<^verbatim>\<open>Css.removeClassName\<close>), on a node and on
  \<^verbatim>\<open>document.documentElement\<close>.
\<close>

fun Css_addClassName :: "node option \<Rightarrow> string \<Rightarrow> document \<Rightarrow> error + document" where
  "Css_addClassName (Some n) c d = Inr (d\<lparr>classes := (classes d)(n := insert c (classes d n))\<rparr>)"
| "Css_addClassName None c d = Inl AbsentNode"

definition Css_removeClassName :: "node \<Rightarrow> string \<Rightarrow> document \<Rightarrow> document" where
  "Css_removeClassName n c d = d\<lparr>classes := (classes d)(n := classes d n - {c})\<rparr>"

definition root_addClassName :: "string \<Rightarrow> document \<Rightarrow> document" where
  "root_addClassName c d = d\<lparr>rootClasses := insert c (rootClasses d)\<rparr>"

definition root_removeClassName :: "string \<Rightarrow> document \<Rightarrow> document" where
  "root_removeClassName c d = d\<lparr>rootClasses := rootClasses d - {c}\<rparr>"

text \<open>
  The layout (\<^verbatim>\<open>Element.offset\<close>, the pair \<^verbatim>\<open>[left, top]\<close> of a node) and selector matching
  (\<^verbatim>\<open>Selector.matchesSelector\<close>) are computed by the host from the live document; they are
  parameters of the model.
\<close>

record host_env =
  offset :: "document \<Rightarrow> node \<Rightarrow> int \<times> int"
  matchesSelector :: "document \<Rightarrow> node \<Rightarrow> string \<Rightarrow> bool"

section \<open>The component\<close>

text \<open>
  The options of the constructor (lines 45 to 55). A selector option is a string or
  absent (\<^verbatim>\<open>null\<close>, \<^verbatim>\<open>false\<close>); the code tests it for truthiness, and the empty string is
  falsy as well.
\<close>

record options =
  placeholderClass :: string
  draggedClass :: string
  draggingClass :: string
  dragSelector :: string
  handleSelector :: "string option"
  moveSelector :: "string option"
  swap :: bool
  cancelMouseOut :: bool

definition default_options :: options where
  "default_options =
     \<lparr>placeholderClass = ''placeholder'', draggedClass = ''hide-all'', draggingClass = ''dragging'',
      dragSelector = ''li'', handleSelector = None, moveSelector = None, swap = False,
      cancelMouseOut = False\<rparr>"

text \<open>
  The session fields \<^verbatim>\<open>this._isMoving\<close> and \<^verbatim>\<open>this._placeholder\<close>: a node, or a falsy value
  (\<^verbatim>\<open>false\<close>, \<^verbatim>\<open>undefined\<close>).
\<close>

record sortable =
  isMoving :: "node option"
  placeholder :: "node option"

definition initial :: sortable where
  "initial = \<lparr>isMoving = None, placeholder = None\<rparr>"

type_synonym world = "sortable \<times> document"

text \<open>
  A method either returns or is left by a fault of a host primitive; in both cases the
  fields and the document are as the method left them. The value a handler returns
  (\<^verbatim>\<open>false\<close>, which stops the default action of the event) is not part of the model.
\<close>

datatype outcome = Returned world | Threw error world

fun final :: "outcome \<Rightarrow> world" where
  "final (Returned w) = w"
| "final (Threw e w) = w"

definition host :: "(document \<Rightarrow> error + document) \<Rightarrow> world \<Rightarrow> outcome" where
  "host f w = (case f (snd w) of Inl e \<Rightarrow> Threw e w | Inr d \<Rightarrow> Returned (fst w, d))"

fun andThen :: "outcome \<Rightarrow> (world \<Rightarrow> outcome) \<Rightarrow> outcome" where
  "andThen (Returned w) k = k w"
| "andThen (Threw e w) k = Threw e w"

text \<open>
  \<^verbatim>\<open>options.sel && !Selector.matchesSelector(node, options.sel)\<close>: the selector is
  configured and the node does not match it.
\<close>

definition selector_rejects :: "host_env \<Rightarrow> document \<Rightarrow> string option \<Rightarrow> node \<Rightarrow> bool" where
  "selector_rejects env d sel n =
     (case sel of None \<Rightarrow> False | Some str \<Rightarrow> str \<noteq> [] \<and> \<not> matchesSelector env d n str)"

text \<open>\<^verbatim>\<open>_addMovingClasses\<close>, lines 154 to 158.\<close>

definition addMovingClasses :: "options \<Rightarrow> world \<Rightarrow> outcome" where
  "addMovingClasses opts w =
     andThen (andThen (host (Css_addClassName (placeholder (fst w)) (placeholderClass opts)) w)
                (\<lambda>w1. host (Css_addClassName (isMoving (fst w1)) (draggedClass opts)) w1))
       (\<lambda>w2. Returned (fst w2, root_addClassName (draggingClass opts) (snd w2)))"

text \<open>\<^verbatim>\<open>_removeMovingClasses\<close>, lines 166 to 170.\<close>

definition removeMovingClasses :: "options \<Rightarrow> world \<Rightarrow> world" where
  "removeMovingClasses opts w =
     (let d1 = (case isMoving (fst w) of
                  Some m \<Rightarrow> Css_removeClassName m (draggedClass opts) (snd w)
                | None \<Rightarrow> snd w);
          d2 = (case placeholder (fst w) of
                  Some p \<Rightarrow> Css_removeClassName p (placeholderClass opts) d1
                | None \<Rightarrow> d1)
      in (fst w, root_removeClassName (draggingClass opts) d2))"

text \<open>\<^verbatim>\<open>_movePlaceholder\<close>, lines 179 to 203.\<close>

definition movePlaceholder :: "options \<Rightarrow> host_env \<Rightarrow> node \<Rightarrow> world \<Rightarrow> outcome" where
  "movePlaceholder opts env tgt w =
     (case placeholder (fst w) of
        None \<Rightarrow> host (Element_insertAfter None (Some tgt)) w
      | Some p \<Rightarrow>
          if swap opts then
            andThen (andThen (host (Element_insertAfter (Some p) (Some tgt)) w)
                       (\<lambda>w1. host (Element_insertBefore (Some tgt) (isMoving (fst w1))) w1))
              (\<lambda>w2. host (Element_insertBefore (isMoving (fst w2)) (Some p)) w2)
          else
            (let target_position = offset env (snd w) tgt;
                 placeholder_position = offset env (snd w) p;
                 from_top = (snd target_position > snd placeholder_position);
                 from_left = (fst target_position > fst placeholder_position)
             in andThen
                  (if (from_top \<and> from_left) \<or> (\<not> from_top \<and> \<not> from_left)
                   then host (Element_insertBefore (Some p) (Some tgt)) w
                   else host (Element_insertAfter (Some p) (Some tgt)) w)
                  (\<lambda>w1. host (Element_insertBefore (isMoving (fst w1)) (Some p)) w1)))"

text \<open>\<^verbatim>\<open>stopMoving\<close>, lines 223 to 228.\<close>

definition stopMoving :: "options \<Rightarrow> world \<Rightarrow> world" where
  "stopMoving opts w =
     (let w1 = removeMovingClasses opts w
      in (\<lparr>isMoving = None, placeholder = None\<rparr>, Element_remove (placeholder (fst w1)) (snd w1)))"

text \<open>\<^verbatim>\<open>validateMove\<close>, lines 237 to 246.\<close>

definition validateMove :: "options \<Rightarrow> host_env \<Rightarrow> node \<Rightarrow> world \<Rightarrow> outcome" where
  "validateMove opts env elem w =
     (if isMoving (fst w) = None \<or> placeholder (fst w) = None then Returned w
      else if Some elem = placeholder (fst w) then Returned w
      else if Some elem = isMoving (fst w) then Returned w
      else if \<not> selector_rejects env (snd w) (moveSelector opts) elem
      then movePlaceholder opts env elem w
      else Returned (stopMoving opts w))"

text \<open>
  A pointer event carries the node it was raised on (\<^verbatim>\<open>ev.target\<close>) and the node whose
  handler runs (\<^verbatim>\<open>ev.currentTarget\<close>).
\<close>

record event =
  target :: node
  currentTarget :: node

text \<open>\<^verbatim>\<open>_onDown\<close>, lines 109 to 118.\<close>

definition onDown :: "options \<Rightarrow> host_env \<Rightarrow> event \<Rightarrow> world \<Rightarrow> outcome" where
  "onDown opts env ev w =
     (if isMoving (fst w) \<noteq> None \<or> placeholder (fst w) \<noteq> None then Returned w
      else if selector_rejects env (snd w) (handleSelector opts) (target ev) then Returned w
      else
        (let tgtEl = currentTarget ev;
             cl = cloneNode tgtEl (snd w)
         in andThen
              (movePlaceholder opts env tgtEl (\<lparr>isMoving = Some tgtEl, placeholder = Some (fst cl)\<rparr>, snd cl))
              (addMovingClasses opts)))"

text \<open>\<^verbatim>\<open>_onMove\<close>, lines 127 to 130.\<close>

definition onMove :: "options \<Rightarrow> host_env \<Rightarrow> event \<Rightarrow> world \<Rightarrow> outcome" where
  "onMove opts env ev w = validateMove opts env (currentTarget ev) w"

text \<open>\<^verbatim>\<open>_onUp\<close>, lines 139 to 146.\<close>

definition onUp :: "options \<Rightarrow> host_env \<Rightarrow> event \<Rightarrow> world \<Rightarrow> outcome" where
  "onUp opts env ev w =
     (if isMoving (fst w) = None \<or> placeholder (fst w) = None then Returned w
      else if Some (currentTarget ev) = isMoving (fst w) then Returned w
      else if Some (currentTarget ev) = placeholder (fst w) then Returned w
      else andThen (host (Element_insertBefore (isMoving (fst w)) (placeholder (fst w))) w)
             (\<lambda>w1. Returned (stopMoving opts w1)))"

text \<open>
  The bindings of \<^verbatim>\<open>_observe\<close> (lines 93 to 100) and the public methods: what can happen
  to a component. \<^verbatim>\<open>mouseleave\<close> is bound to \<^verbatim>\<open>stopMoving\<close> only with \<^verbatim>\<open>cancelMouseOut\<close>.
\<close>

datatype operation =
  PointerDown event | PointerMove event | PointerUp event | MouseLeave
  | StopMoving | ValidateMove node

fun dispatch :: "options \<Rightarrow> host_env \<Rightarrow> operation \<Rightarrow> world \<Rightarrow> outcome" where
  "dispatch opts env (PointerDown ev) w = onDown opts env ev w"
| "dispatch opts env (PointerMove ev) w = onMove opts env ev w"
| "dispatch opts env (PointerUp ev) w = onUp opts env ev w"
| "dispatch opts env MouseLeave w =
     (if cancelMouseOut opts then Returned (stopMoving opts w) else Returned w)"
| "dispatch opts env StopMoving w = Returned (stopMoving opts w)"
| "dispatch opts env (ValidateMove elem) w = validateMove opts env elem w"

text \<open>A sequence of operations; a fault ends one handler, not the component.\<close>

fun run :: "options \<Rightarrow> host_env \<Rightarrow> operation list \<Rightarrow> world \<Rightarrow> world" where
  "run opts env [] w = w"
| "run opts env (x # xs) w = run opts env xs (final (dispatch opts env x w))"

section \<open>Positions in the child sequence\<close>

text \<open>\<open>precedes a b xs\<close>: the node \<open>b\<close> comes somewhere after the node \<open>a\<close>.\<close>

definition precedes :: "node \<Rightarrow> node \<Rightarrow> node list \<Rightarrow> bool" where
  "precedes a b xs = (b \<in> set (drop 1 (dropWhile (\<lambda>x. x \<noteq> a) xs)))"

text \<open>
  The tie-break in the words of section 4.2 of the specification:
  \<^verbatim>\<open>fromLeft = C.x > placeholder.x\<close>, \<^verbatim>\<open>fromTop = C.y > placeholder.y\<close>, and the
  placeholder goes before the candidate when \<^verbatim>\<open>fromTop == fromLeft\<close>.
\<close>

definition spec_places_before :: "host_env \<Rightarrow> document \<Rightarrow> node \<Rightarrow> node \<Rightarrow> bool" where
  "spec_places_before env d c p =
     ((fst (offset env d c) > fst (offset env d p)) = (snd (offset env d c) > snd (offset env d p)))"

text \<open>\<open>adjacent a b xs\<close>: the two nodes are neighbours, in either order.\<close>

definition adjacent :: "node \<Rightarrow> node \<Rightarrow> node list \<Rightarrow> bool" where
  "adjacent a b xs = (nextSibling a xs = Some b \<or> nextSibling b xs = Some a)"

text \<open>Two nodes trade places; every other node stays.\<close>

definition exchange :: "node \<Rightarrow> node \<Rightarrow> node \<Rightarrow> node" where
  "exchange a b x = (if x = a then b else if x = b then a else x)"

text \<open>
  The relocations of reorder mode on the child sequence: the placeholder before or after
  the candidate, then the dragged item before the placeholder.
\<close>

definition reorder_steps :: "bool \<Rightarrow> node \<Rightarrow> node \<Rightarrow> node \<Rightarrow> node list \<Rightarrow> node list" where
  "reorder_steps b m p c xs =
     parent_insertBefore m (Some p)
       (if b then parent_insertBefore p (Some c) xs
        else parent_insertBefore p (nextSibling c xs) xs)"

text \<open>The three relocations of swap mode on the child sequence.\<close>

definition swap_steps :: "node \<Rightarrow> node \<Rightarrow> node \<Rightarrow> node list \<Rightarrow> node list" where
  "swap_steps m p c xs =
     parent_insertBefore m (Some p)
       (parent_insertBefore c (Some m)
          (parent_insertBefore p (nextSibling c xs) xs))"

text \<open>
  The session invariant of section 3: the two fields are both set or both absent.
\<close>

definition session_inv :: "sortable \<Rightarrow> bool" where
  "session_inv s = ((isMoving s = None) = (placeholder s = None))"

section \<open>Sample data\<close>

text \<open>
  The list of the scenarios in section 8: three items \<open>A = 0\<close>, \<open>B = 1\<close>, \<open>C = 2\<close>, laid
  out as a column with rows of 20 pixels; a node outside the document sits at the origin.
  In the sample host a selector is a class name, matched by the nodes that carry it.
\<close>

definition abc :: document where
  "abc = \<lparr>children = [0, 1, 2], classes = (\<lambda>n. {}), rootClasses = {}, nextNode = 3\<rparr>"

definition column :: host_env where
  "column =
     \<lparr>offset = (\<lambda>d n. if n \<in> set (children d)
                       then (0, 20 * int (length (takeWhile (\<lambda>x. x \<noteq> n) (children d))))
                       else (0, 0)),
      matchesSelector = (\<lambda>d n sel. sel \<in> classes d n)\<rparr>"

text \<open>The session in which \<open>m\<close> is dragged and \<open>p\<close> is its placeholder.\<close>

definition dragging :: "node \<Rightarrow> node \<Rightarrow> sortable" where
  "dragging m p = \<lparr>isMoving = Some m, placeholder = Some p\<rparr>"

text \<open>The same list after a press on \<open>A\<close>: the placeholder \<open>3\<close> sits right after it.\<close>

definition pressed :: document where
  "pressed =
     \<lparr>children = [0, 3, 1, 2],
      classes = (\<lambda>n. {})(3 := {''placeholder''}, 0 := {''hide-all''}),
      rootClasses = {''dragging''}, nextNode = 4\<rparr>"

definition swap_options :: options where
  "swap_options = default_options\<lparr>swap := True\<rparr>"

text \<open>The list while \<open>A\<close> is held over \<open>C\<close> in reorder mode: \<open>B C A P\<close>.\<close>

definition moved :: document where
  "moved = pressed\<lparr>children := [1, 2, 0, 3]\<rparr>"

text \<open>Options with a handle selector, and with a move selector that no item matches.\<close>

definition handle_options :: options where
  "handle_options = default_options\<lparr>handleSelector := Some ''ink-label''\<rparr>"

definition move_options :: options where
  "move_options = default_options\<lparr>moveSelector := Some ''droppable''\<rparr>"

section \<open>Lists of siblings\<close>

lemma split_distinct:
  "distinct xs \<Longrightarrow> t \<in> set xs \<Longrightarrow> \<exists>as bs. xs = as @ t # bs \<and> t \<notin> set as \<and> t \<notin> set bs"
proof -
  assume d: "distinct xs" and "t \<in> set xs"
  then obtain as bs where xs: "xs = as @ t # bs" by (auto dest: split_list)
  with d have "t \<notin> set as \<and> t \<notin> set bs" by auto
  with xs show ?thesis by blast
qed

lemma takeWhile_upto: "t \<notin> set as \<Longrightarrow> takeWhile (\<lambda>x. x \<noteq> t) (as @ t # bs) = as"
  by (induction as) auto

lemma dropWhile_upto: "t \<notin> set as \<Longrightarrow> dropWhile (\<lambda>x. x \<noteq> t) (as @ t # bs) = t # bs"
  by (induction as) auto

lemma nextSibling_mid: "a \<notin> set as \<Longrightarrow> nextSibling a (as @ a # b # bs) = Some b"
proof (induction as)
  case Nil
  then show ?case by simp
next
  case (Cons x as)
  then show ?case by (cases as) auto
qed

lemma nextSibling_end: "a \<notin> set as \<Longrightarrow> nextSibling a (as @ [a]) = None"
proof (induction as)
  case Nil
  then show ?case by simp
next
  case (Cons x as)
  then show ?case by (cases as) auto
qed

lemma insertBefore_at:
  "removeAll n xs = as @ r # bs \<Longrightarrow> r \<notin> set as \<Longrightarrow> n \<noteq> r \<Longrightarrow>
   parent_insertBefore n (Some r) xs = as @ n # r # bs"
  by (simp add: parent_insertBefore_def takeWhile_upto dropWhile_upto)

lemma insertAfter_split:
  assumes "distinct (as @ t # bs)" "n \<noteq> t"
  shows "parent_insertBefore n (nextSibling t (as @ t # bs)) (as @ t # bs)
         = removeAll n as @ t # n # removeAll n bs"
proof (cases bs)
  case Nil
  with assms show ?thesis
    by (simp add: parent_insertBefore_def nextSibling_end)
next
  case (Cons r bs')
  with assms have ns: "nextSibling t (as @ t # bs) = Some r"
    by (simp add: nextSibling_mid)
  show ?thesis
  proof (cases "r = n")
    case True
    with assms Cons ns show ?thesis
      by (simp add: parent_insertBefore_def)
  next
    case False
    have "removeAll n (as @ t # bs) = (removeAll n as @ [t]) @ r # removeAll n bs'"
      using assms Cons False by simp
    moreover have "r \<notin> set (removeAll n as @ [t])"
      using assms Cons by auto
    ultimately have "parent_insertBefore n (Some r) (as @ t # bs)
        = (removeAll n as @ [t]) @ n # r # removeAll n bs'"
      using False by (intro insertBefore_at) auto
    with ns Cons False show ?thesis by simp
  qed
qed

lemma insertAfter_at:
  assumes "distinct xs" "removeAll n xs = as @ t # bs" "n \<noteq> t"
  shows "parent_insertBefore n (nextSibling t xs) xs = as @ t # n # bs"
proof -
  have "t \<in> set (removeAll n xs)" using assms(2) by simp
  then have "t \<in> set xs" by simp
  from split_distinct[OF assms(1) this]
  obtain as0 bs0 where xs: "xs = as0 @ t # bs0" "t \<notin> set as0" "t \<notin> set bs0"
    by auto
  have d: "distinct (as @ t # bs)"
    using distinct_removeAll[OF assms(1), of n] by (simp only: assms(2))
  have e: "removeAll n as0 @ t # removeAll n bs0 = as @ t # bs"
    using assms(2,3) by (simp add: xs(1))
  have tn: "t \<notin> set (removeAll n as0)" using xs(2) by simp
  have ta: "t \<notin> set (removeAll n bs0)" using xs(3) by simp
  have "removeAll n as0 = as \<and> removeAll n bs0 = bs"
    by (rule iffD1[OF append_Cons_eq_iff[OF tn ta] e])
  then have eq: "removeAll n as0 = as" "removeAll n bs0 = bs"
    by (rule conjunct1, rule conjunct2)
  have "distinct (as0 @ t # bs0)" using assms(1) by (simp only: xs(1))
  from insertAfter_split[OF this assms(3)] show ?thesis
    by (simp only: eq xs(1)[symmetric])
qed

lemma host_insertBefore:
  "t \<in> set (children (snd w)) \<Longrightarrow>
   host (Element_insertBefore (Some n) (Some t)) w
   = Returned (fst w, (snd w)\<lparr>children := parent_insertBefore n (Some t) (children (snd w))\<rparr>)"
  by (simp add: host_def)

lemma host_insertAfter:
  "t \<in> set (children (snd w)) \<Longrightarrow>
   host (Element_insertAfter (Some n) (Some t)) w
   = Returned (fst w, (snd w)\<lparr>children := parent_insertBefore n (nextSibling t (children (snd w))) (children (snd w))\<rparr>)"
  by (simp add: host_def)

lemma andThen_host_cong:
  "(\<And>d'. k (fst w, d') = k' (fst w, d')) \<Longrightarrow> andThen (host f w) k = andThen (host f w) k'"
  by (simp add: host_def split: sum.splits)

lemma before_shape:
  assumes "distinct xs" "r \<in> set xs" "n \<noteq> r"
  shows "\<exists>as bs. removeAll n xs = as @ r # bs \<and> parent_insertBefore n (Some r) xs = as @ n # r # bs
           \<and> distinct (as @ n # r # bs)"
proof -
  have "distinct (removeAll n xs)" "r \<in> set (removeAll n xs)"
    using assms by (simp_all add: distinct_removeAll)
  from split_distinct[OF this]
  obtain as bs where s: "removeAll n xs = as @ r # bs" "r \<notin> set as" "r \<notin> set bs"
    by auto
  have "n \<notin> set (removeAll n xs)" by simp
  with s have n: "n \<notin> set as" "n \<notin> set bs" by auto
  have "distinct (as @ r # bs)" using s(1) \<open>distinct (removeAll n xs)\<close> by simp
  with n assms(3) have d: "distinct (as @ n # r # bs)" by simp
  show ?thesis
    by (intro exI[of _ as] exI[of _ bs] conjI s(1) d insertBefore_at[OF s(1) s(2) assms(3)])
qed

lemma after_shape:
  assumes "distinct xs" "t \<in> set xs" "n \<noteq> t"
  shows "\<exists>as bs. removeAll n xs = as @ t # bs \<and> parent_insertBefore n (nextSibling t xs) xs = as @ t # n # bs
           \<and> distinct (as @ t # n # bs)"
proof -
  have "distinct (removeAll n xs)" "t \<in> set (removeAll n xs)"
    using assms by (simp_all add: distinct_removeAll)
  from split_distinct[OF this]
  obtain as bs where s: "removeAll n xs = as @ t # bs" "t \<notin> set as" "t \<notin> set bs"
    by auto
  have "n \<notin> set (removeAll n xs)" by simp
  with s have n: "n \<notin> set as" "n \<notin> set bs" by auto
  have "distinct (as @ t # bs)" using s(1) \<open>distinct (removeAll n xs)\<close> by simp
  with n assms(3) have d: "distinct (as @ t # n # bs)" by simp
  show ?thesis
    by (intro exI[of _ as] exI[of _ bs] conjI s(1) d insertAfter_at[OF assms(1) s(1) assms(3)])
qed

lemma precedes_split:
  "a \<notin> set as \<Longrightarrow> precedes a b (as @ a # bs) = (b \<in> set bs)"
  by (simp add: precedes_def dropWhile_upto)

lemma removeAll_notin: "x \<notin> set xs \<Longrightarrow> removeAll x xs = xs"
  by simp

lemma two_split:
  assumes "distinct xs" "a \<in> set xs" "b \<in> set xs" "a \<noteq> b"
  shows "(\<exists>as bs cs. xs = as @ a # bs @ b # cs) \<or> (\<exists>as bs cs. xs = as @ b # bs @ a # cs)"
proof -
  from split_distinct[OF assms(1,2)]
  obtain as rest where xs: "xs = as @ a # rest" by auto
  with assms(3,4) have "b \<in> set as \<or> b \<in> set rest" by auto
  then show ?thesis
  proof
    assume "b \<in> set as"
    then obtain as1 as2 where "as = as1 @ b # as2" by (auto dest: split_list)
    with xs have "xs = as1 @ b # as2 @ a # rest" by simp
    then show ?thesis by blast
  next
    assume "b \<in> set rest"
    then obtain r1 r2 where "rest = r1 @ b # r2" by (auto dest: split_list)
    with xs have "xs = as @ a # r1 @ b # r2" by simp
    then show ?thesis by blast
  qed
qed

lemma map_exchange_id: "a \<notin> set xs \<Longrightarrow> b \<notin> set xs \<Longrightarrow> map (exchange a b) xs = xs"
  by (induction xs) (auto simp: exchange_def)

lemma swap_shape:
  assumes d: "distinct xs" and mem: "m \<in> set xs" "c \<in> set xs"
    and ne: "m \<noteq> p" "c \<noteq> m" "c \<noteq> p"
  shows "m \<in> set (parent_insertBefore p (nextSibling c xs) xs)
       \<and> p \<in> set (parent_insertBefore c (Some m) (parent_insertBefore p (nextSibling c xs) xs))
       \<and> nextSibling m (swap_steps m p c xs) = Some p
       \<and> removeAll p (swap_steps m p c xs) = map (exchange m c) (removeAll p xs)
       \<and> distinct (swap_steps m p c xs)"
proof -
  let ?rest = "removeAll p xs"
  have dr: "distinct ?rest" using d by (simp add: distinct_removeAll)
  have "m \<in> set ?rest" "c \<in> set ?rest" using mem ne by simp_all
  from two_split[OF dr this] ne(2)
  consider (mc) as bs cs where "?rest = as @ m # bs @ c # cs"
    | (cm) as bs cs where "?rest = as @ c # bs @ m # cs"
    by auto
  then show ?thesis
  proof cases
    case mc
    have dd: "distinct (as @ m # bs @ c # cs)" using dr mc by simp
    have pn: "p \<notin> set (as @ m # bs @ c # cs)" using mc[symmetric] by simp
    have "?rest = (as @ m # bs) @ c # cs" using mc by simp
    from insertAfter_at[OF d this] ne(3)
    have l1: "parent_insertBefore p (nextSibling c xs) xs = as @ m # bs @ c # p # cs" by simp
    have "removeAll c (as @ m # bs @ c # p # cs) = as @ m # bs @ p # cs"
      using dd ne by simp
    moreover have "m \<notin> set as" using dd by simp
    ultimately have l2: "parent_insertBefore c (Some m) (as @ m # bs @ c # p # cs)
        = as @ c # m # bs @ p # cs"
      using insertBefore_at[of c "as @ m # bs @ c # p # cs" as m "bs @ p # cs"] ne(2) by simp
    have "removeAll m (as @ c # m # bs @ p # cs) = (as @ c # bs) @ p # cs"
      using dd ne by simp
    moreover have "p \<notin> set (as @ c # bs)" using pn by simp
    ultimately have l3: "parent_insertBefore m (Some p) (as @ c # m # bs @ p # cs)
        = (as @ c # bs) @ m # p # cs"
      using insertBefore_at[of m "as @ c # m # bs @ p # cs" "as @ c # bs" p cs] ne(1) by simp
    have st: "swap_steps m p c xs = (as @ c # bs) @ m # p # cs"
      by (simp only: swap_steps_def l1 l2 l3)
    have "m \<notin> set (as @ c # bs)" using dd ne by simp
    then have a: "nextSibling m ((as @ c # bs) @ m # p # cs) = Some p"
      by (rule nextSibling_mid)
    have b: "removeAll p ((as @ c # bs) @ m # p # cs) = map (exchange m c) ?rest"
      using dd pn ne by (simp add: mc map_exchange_id exchange_def)
    have c: "distinct ((as @ c # bs) @ m # p # cs)" using dd pn ne by auto
    show ?thesis using l1 l2 a b c unfolding st by simp
  next
    case cm
    have dd: "distinct (as @ c # bs @ m # cs)" using dr cm by simp
    have pn: "p \<notin> set (as @ c # bs @ m # cs)" using cm[symmetric] by simp
    from insertAfter_at[OF d cm] ne(3)
    have l1: "parent_insertBefore p (nextSibling c xs) xs = as @ c # p # bs @ m # cs" by simp
    have "removeAll c (as @ c # p # bs @ m # cs) = (as @ p # bs) @ m # cs"
      using dd ne by simp
    moreover have "m \<notin> set (as @ p # bs)" using dd ne by simp
    ultimately have l2: "parent_insertBefore c (Some m) (as @ c # p # bs @ m # cs)
        = (as @ p # bs) @ c # m # cs"
      using insertBefore_at[of c "as @ c # p # bs @ m # cs" "as @ p # bs" m cs] ne(2) by simp
    have "removeAll m ((as @ p # bs) @ c # m # cs) = as @ p # bs @ c # cs"
      using dd ne by simp
    moreover have "p \<notin> set as" using pn by simp
    ultimately have l3: "parent_insertBefore m (Some p) ((as @ p # bs) @ c # m # cs)
        = as @ m # p # bs @ c # cs"
      using insertBefore_at[of m "(as @ p # bs) @ c # m # cs" as p "bs @ c # cs"] ne(1) by simp
    have st: "swap_steps m p c xs = as @ m # p # bs @ c # cs"
      by (simp only: swap_steps_def l1 l2 l3)
    have "m \<notin> set as" using dd by simp
    then have a: "nextSibling m (as @ m # p # bs @ c # cs) = Some p"
      by (rule nextSibling_mid)
    have b: "removeAll p (as @ m # p # bs @ c # cs) = map (exchange m c) ?rest"
      using dd pn ne by (simp add: cm map_exchange_id exchange_def)
    have c: "distinct (as @ m # p # bs @ c # cs)" using dd pn ne by auto
    show ?thesis using l1 l2 a b c unfolding st by simp
  qed
qed

lemma reorder_shape:
  assumes d: "distinct xs" and mem: "c \<in> set xs" and ne: "m \<noteq> p" "c \<noteq> m" "c \<noteq> p"
  shows "p \<in> set (if b then parent_insertBefore p (Some c) xs
                   else parent_insertBefore p (nextSibling c xs) xs)
       \<and> nextSibling m (reorder_steps b m p c xs) = Some p
       \<and> (if b then nextSibling p (reorder_steps b m p c xs) = Some c
          else nextSibling c (reorder_steps b m p c xs) = Some m)
       \<and> (precedes p c (reorder_steps b m p c xs) \<longleftrightarrow> b)
       \<and> removeAll m (removeAll p (reorder_steps b m p c xs)) = removeAll m (removeAll p xs)
       \<and> distinct (reorder_steps b m p c xs)"
proof (cases b)
  case True
  obtain as bs where 1: "removeAll p xs = as @ c # bs"
    "parent_insertBefore p (Some c) xs = as @ p # c # bs"
    "distinct (as @ p # c # bs)"
    using before_shape[OF d mem, of p] ne(3) by auto
  have r: "removeAll m (as @ p # c # bs) = removeAll m as @ p # c # removeAll m bs"
    using ne by simp
  have "p \<notin> set (removeAll m as)" using 1(3) by auto
  from insertBefore_at[OF r this ne(1)]
  have 2: "parent_insertBefore m (Some p) (as @ p # c # bs)
           = removeAll m as @ m # p # c # removeAll m bs" .
  let ?ys = "removeAll m as @ m # p # c # removeAll m bs"
  have st: "reorder_steps b m p c xs = ?ys"
    using True by (simp only: reorder_steps_def if_True 1(2) 2)
  have a: "nextSibling m ?ys = Some p" by (simp add: nextSibling_mid)
  have b: "nextSibling p ?ys = Some c"
    using nextSibling_mid[of p "removeAll m as @ [m]" c "removeAll m bs"] 1(3) ne(1) by simp
  have c: "precedes p c ?ys"
    using precedes_split[of p "removeAll m as @ [m]" c "c # removeAll m bs"] 1(3) ne(1) by simp
  have "p \<notin> set as" "p \<notin> set bs" using 1(3) by auto
  then have e: "removeAll m (removeAll p ?ys) = removeAll m (removeAll p xs)"
    using 1(1) ne by simp
  have f: "distinct ?ys" using 1(3) ne by (auto simp: distinct_removeAll)
  have p1: "p \<in> set (if b then parent_insertBefore p (Some c) xs
                   else parent_insertBefore p (nextSibling c xs) xs)"
    using True 1(2) by simp
  have b': "if b then nextSibling p ?ys = Some c else nextSibling c ?ys = Some m"
    using True b by simp
  have c': "precedes p c ?ys \<longleftrightarrow> b" using True c by simp
  show ?thesis unfolding st by (intro conjI p1 a b' c' e f)
next
  case False
  obtain as bs where 1: "removeAll p xs = as @ c # bs"
    "parent_insertBefore p (nextSibling c xs) xs = as @ c # p # bs"
    "distinct (as @ c # p # bs)"
    using after_shape[OF d mem, of p] ne(3) by auto
  have r: "removeAll m (as @ c # p # bs) = (removeAll m as @ [c]) @ p # removeAll m bs"
    using ne by simp
  have "p \<notin> set (removeAll m as @ [c])" using 1(3) by auto
  from insertBefore_at[OF r this ne(1)]
  have 2: "parent_insertBefore m (Some p) (as @ c # p # bs)
           = removeAll m as @ c # m # p # removeAll m bs"
    by simp
  let ?ys = "removeAll m as @ c # m # p # removeAll m bs"
  have st: "reorder_steps b m p c xs = ?ys"
    using False by (simp only: reorder_steps_def if_False 1(2) 2)
  have a: "nextSibling m ?ys = Some p"
    using nextSibling_mid[of m "removeAll m as @ [c]" p "removeAll m bs"] ne(2) by simp
  have b: "nextSibling c ?ys = Some m"
    using nextSibling_mid[of c "removeAll m as" m "p # removeAll m bs"] 1(3) by simp
  have c: "\<not> precedes p c ?ys"
    using precedes_split[of p "removeAll m as @ [c, m]" c "removeAll m bs"] 1(3) ne(1) by simp
  have "p \<notin> set as" "p \<notin> set bs" using 1(3) by auto
  then have e: "removeAll m (removeAll p ?ys) = removeAll m (removeAll p xs)"
    using 1(1) ne by simp
  have f: "distinct ?ys" using 1(3) ne by (auto simp: distinct_removeAll)
  have p1: "p \<in> set (if b then parent_insertBefore p (Some c) xs
                   else parent_insertBefore p (nextSibling c xs) xs)"
    using False 1(2) by simp
  have b': "if b then nextSibling p ?ys = Some c else nextSibling c ?ys = Some m"
    using False b by simp
  have c': "precedes p c ?ys \<longleftrightarrow> b" using False c by simp
  show ?thesis unfolding st by (intro conjI p1 a b' c' e f)
qed

lemma movePlaceholder_reorder_calls:
  assumes "isMoving s = Some m" "placeholder s = Some p" "\<not> swap opts"
  shows "movePlaceholder opts env c (s, d)
         = andThen (host ((if spec_places_before env d c p then Element_insertBefore
                           else Element_insertAfter) (Some p) (Some c)) (s, d))
             (host (Element_insertBefore (Some m) (Some p)))"
proof -
  have "movePlaceholder opts env c (s, d)
        = andThen (host ((if spec_places_before env d c p then Element_insertBefore
                          else Element_insertAfter) (Some p) (Some c)) (s, d))
            (\<lambda>w1. host (Element_insertBefore (isMoving (fst w1)) (Some p)) w1)"
    using assms by (auto simp: movePlaceholder_def spec_places_before_def Let_def)
  also have "\<dots> = andThen (host ((if spec_places_before env d c p then Element_insertBefore
                          else Element_insertAfter) (Some p) (Some c)) (s, d))
            (host (Element_insertBefore (Some m) (Some p)))"
    by (rule andThen_host_cong) (simp add: assms(1))
  finally show ?thesis .
qed

lemma movePlaceholder_swap_calls:
  assumes "isMoving s = Some m" "placeholder s = Some p" "swap opts"
  shows "movePlaceholder opts env c (s, d)
         = andThen (andThen (host (Element_insertAfter (Some p) (Some c)) (s, d))
                      (host (Element_insertBefore (Some c) (Some m))))
             (host (Element_insertBefore (Some m) (Some p)))"
  using assms by (simp add: movePlaceholder_def host_def split: sum.splits)

lemma movePlaceholder_reorder:
  assumes act: "isMoving s = Some m" "placeholder s = Some p" "m \<noteq> p"
    and doc: "distinct (children d)" "c \<in> set (children d)" "c \<noteq> m" "c \<noteq> p"
    and cfg: "\<not> swap opts"
  shows "movePlaceholder opts env c (s, d)
         = Returned (s, d\<lparr>children := reorder_steps (spec_places_before env d c p) m p c (children d)\<rparr>)"
proof -
  have p: "p \<in> set (if spec_places_before env d c p then parent_insertBefore p (Some c) (children d)
                   else parent_insertBefore p (nextSibling c (children d)) (children d))"
    using reorder_shape[OF doc(1,2) act(3) doc(3,4)] by (rule conjunct1)
  show ?thesis
    using p doc(2)
    by (simp add: movePlaceholder_reorder_calls[OF act(1,2) cfg] host_insertBefore host_insertAfter
        reorder_steps_def split: if_splits)
qed

lemma movePlaceholder_swap:
  assumes act: "isMoving s = Some m" "placeholder s = Some p" "m \<noteq> p"
    and doc: "distinct (children d)" "m \<in> set (children d)" "c \<in> set (children d)"
      "c \<noteq> m" "c \<noteq> p"
    and cfg: "swap opts"
  shows "movePlaceholder opts env c (s, d)
         = Returned (s, d\<lparr>children := swap_steps m p c (children d)\<rparr>)"
proof -
  note sh = swap_shape[OF doc(1,2,3) act(3) doc(4,5)]
  have m: "m \<in> set (parent_insertBefore p (nextSibling c (children d)) (children d))"
    using sh by (rule conjunct1)
  have p: "p \<in> set (parent_insertBefore c (Some m)
                       (parent_insertBefore p (nextSibling c (children d)) (children d)))"
    using sh by (simp only:)
  show ?thesis
    using m p doc(3)
    by (simp add: movePlaceholder_swap_calls[OF act(1,2) cfg] host_insertBefore host_insertAfter
        swap_steps_def)
qed

lemma commit_shape:
  assumes "distinct xs" "p \<in> set xs" "m \<noteq> p"
  shows "removeAll p (parent_insertBefore m (Some p) xs)
         = map (\<lambda>x. if x = p then m else x) (removeAll m xs)"
proof -
  obtain as bs where 1: "removeAll m xs = as @ p # bs"
    "parent_insertBefore m (Some p) xs = as @ m # p # bs"
    "distinct (as @ m # p # bs)"
    using before_shape[OF assms] by auto
  have "p \<notin> set as" "p \<notin> set bs" using 1(3) by auto
  have "map (\<lambda>x. if x = p then m else x) as = as"
    using \<open>p \<notin> set as\<close> by (intro map_idI) auto
  moreover have "map (\<lambda>x. if x = p then m else x) bs = bs"
    using \<open>p \<notin> set bs\<close> by (intro map_idI) auto
  ultimately show ?thesis
    using 1 assms(3) \<open>p \<notin> set as\<close> \<open>p \<notin> set bs\<close> by simp
qed

lemma stopMoving_active:
  assumes "isMoving s = Some m" "placeholder s = Some p" "m \<noteq> p"
  shows "stopMoving opts (s, d)
         = (initial,
            d\<lparr>children := removeAll p (children d),
              classes := (classes d)(m := classes d m - {draggedClass opts},
                                     p := classes d p - {placeholderClass opts}),
              rootClasses := rootClasses d - {draggingClass opts}\<rparr>)"
  using assms
  by (simp add: stopMoving_def removeMovingClasses_def Css_removeClassName_def
      root_removeClassName_def initial_def Let_def)

lemma press_shape:
  assumes "distinct xs" "t \<in> set xs" "p \<notin> set xs"
  shows "\<exists>as bs. xs = as @ t # bs \<and> distinct (as @ t # p # bs)
           \<and> parent_insertBefore p (Some t) xs = as @ p # t # bs
           \<and> parent_insertBefore p (nextSibling t xs) xs = as @ t # p # bs
           \<and> parent_insertBefore t (Some p) (as @ p # t # bs) = as @ t # p # bs
           \<and> parent_insertBefore t (Some p) (as @ t # p # bs) = as @ t # p # bs"
proof -
  from split_distinct[OF assms(1,2)]
  obtain as bs where xs: "xs = as @ t # bs" "t \<notin> set as" "t \<notin> set bs" by auto
  have pt: "p \<noteq> t" using assms(2,3) by auto
  have pn: "p \<notin> set as" "p \<notin> set bs" using assms(3) xs(1) by auto
  have r: "removeAll p xs = as @ t # bs" using assms(3) xs(1) by simp
  have d: "distinct (as @ t # p # bs)" using assms(1) xs pn pt by auto
  have 1: "parent_insertBefore p (Some t) xs = as @ p # t # bs"
    by (rule insertBefore_at[OF r xs(2) pt])
  have 2: "parent_insertBefore p (nextSibling t xs) xs = as @ t # p # bs"
    by (rule insertAfter_at[OF assms(1) r pt])
  have "removeAll t (as @ p # t # bs) = as @ p # bs" using xs pt by simp
  from insertBefore_at[OF this pn(1)] pt
  have 3: "parent_insertBefore t (Some p) (as @ p # t # bs) = as @ t # p # bs" by simp
  have "removeAll t (as @ t # p # bs) = as @ p # bs" using xs pt by simp
  from insertBefore_at[OF this pn(1)] pt
  have 4: "parent_insertBefore t (Some p) (as @ t # p # bs) = as @ t # p # bs" by simp
  show ?thesis by (intro exI[of _ as] exI[of _ bs] conjI xs(1) d 1 2 3 4)
qed

lemma movePlaceholder_press:
  assumes act: "isMoving s = Some t" "placeholder s = Some p"
    and doc: "distinct (children d)" "t \<in> set (children d)" "p \<notin> set (children d)"
  shows "\<exists>ys. movePlaceholder opts env t (s, d) = Returned (s, d\<lparr>children := ys\<rparr>)
           \<and> nextSibling t ys = Some p \<and> removeAll p ys = children d"
proof -
  from press_shape[OF doc]
  obtain as bs where sh: "children d = as @ t # bs" "distinct (as @ t # p # bs)"
    "parent_insertBefore p (Some t) (children d) = as @ p # t # bs"
    "parent_insertBefore p (nextSibling t (children d)) (children d) = as @ t # p # bs"
    "parent_insertBefore t (Some p) (as @ p # t # bs) = as @ t # p # bs"
    "parent_insertBefore t (Some p) (as @ t # p # bs) = as @ t # p # bs"
    by auto
  have ns: "nextSibling t (as @ t # p # bs) = Some p"
    using sh(2) by (intro nextSibling_mid) simp
  have rm: "removeAll p (as @ t # p # bs) = children d"
    using sh(1,2) by simp
  have "movePlaceholder opts env t (s, d) = Returned (s, d\<lparr>children := as @ t # p # bs\<rparr>)"
  proof (cases "swap opts")
    case True
    have self: "parent_insertBefore t (Some t) (as @ t # p # bs) = as @ t # p # bs"
      by (simp add: parent_insertBefore_def)
    show ?thesis
      using doc(2) sh(4,6) self
      by (simp add: movePlaceholder_swap_calls[OF act True] host_insertAfter host_insertBefore)
  next
    case False
    show ?thesis
      using doc(2) sh(3,4,5,6)
      by (simp add: movePlaceholder_reorder_calls[OF act False] host_insertAfter host_insertBefore)
  qed
  with ns rm show ?thesis by (intro exI[of _ "as @ t # p # bs"] conjI)
qed

lemma onDown_starts:
  assumes idle: "isMoving s = None" "placeholder s = None"
    and handle: "\<not> selector_rejects env d (handleSelector opts) (target ev)"
    and doc: "distinct (children d)" "currentTarget ev \<in> set (children d)"
      "nextNode d \<notin> set (children d)"
  shows "\<exists>d'. onDown opts env ev (s, d) = Returned (dragging (currentTarget ev) (nextNode d), d')
           \<and> nextSibling (currentTarget ev) (children d') = Some (nextNode d)
           \<and> removeAll (nextNode d) (children d') = children d"
proof -
  let ?t = "currentTarget ev"
  let ?p = "nextNode d"
  let ?d1 = "snd (cloneNode ?t d)"
  have c: "fst (cloneNode ?t d) = ?p" "children ?d1 = children d"
    by (simp_all add: cloneNode_def)
  have "\<exists>ys. movePlaceholder opts env ?t (dragging ?t ?p, ?d1)
              = Returned (dragging ?t ?p, ?d1\<lparr>children := ys\<rparr>)
           \<and> nextSibling ?t ys = Some ?p \<and> removeAll ?p ys = children ?d1"
    by (rule movePlaceholder_press) (simp_all add: dragging_def c doc)
  then obtain ys where ys:
    "movePlaceholder opts env ?t (dragging ?t ?p, ?d1) = Returned (dragging ?t ?p, ?d1\<lparr>children := ys\<rparr>)"
    "nextSibling ?t ys = Some ?p" "removeAll ?p ys = children d"
    using c(2) by auto
  have "\<exists>d'. addMovingClasses opts (dragging ?t ?p, ?d1\<lparr>children := ys\<rparr>)
               = Returned (dragging ?t ?p, d') \<and> children d' = ys"
    by (simp add: addMovingClasses_def host_def dragging_def root_addClassName_def)
  then obtain d' where d':
    "addMovingClasses opts (dragging ?t ?p, ?d1\<lparr>children := ys\<rparr>) = Returned (dragging ?t ?p, d')"
    "children d' = ys" by auto
  have "onDown opts env ev (s, d) = Returned (dragging ?t ?p, d')"
    using idle handle ys(1) d'(1) c(1)
    by (simp add: onDown_def Let_def dragging_def)
  with ys(2,3) d'(2) show ?thesis by (intro exI[of _ d'] conjI) simp_all
qed

lemma set_insertBefore: "set (parent_insertBefore n r xs) \<subseteq> insert n (set xs)"
  by (auto simp: parent_insertBefore_def split: option.splits
      dest: set_takeWhileD set_dropWhileD)

lemma movePlaceholder_absent:
  "placeholder s = None \<Longrightarrow> movePlaceholder opts env c (s, d) = Threw AbsentNode (s, d)"
  by (simp add: movePlaceholder_def host_def)

lemma movePlaceholder_detached:
  "placeholder s = Some p \<Longrightarrow> c \<notin> set (children d) \<Longrightarrow>
   movePlaceholder opts env c (s, d) = Threw DetachedReference (s, d)"
  by (simp add: movePlaceholder_def host_def Let_def)

lemma movePlaceholder_swap_detached:
  assumes act: "isMoving s = Some m" "placeholder s = Some p" "m \<noteq> p"
    and doc: "c \<in> set (children d)" "m \<notin> set (children d)"
    and cfg: "swap opts"
  shows "\<exists>w. movePlaceholder opts env c (s, d) = Threw DetachedReference w"
proof -
  have "m \<notin> set (parent_insertBefore p (nextSibling c (children d)) (children d))"
    using set_insertBefore[of p "nextSibling c (children d)" "children d"] act(3) doc(2) by auto
  then show ?thesis
    using doc(1)
    by (simp add: movePlaceholder_swap_calls[OF act(1,2) cfg] host_insertAfter host_def)
qed

section \<open>Sessions\<close>

lemma stopMoving_session: "fst (stopMoving opts w) = initial"
  by (simp add: stopMoving_def initial_def Let_def)

lemma stopMoving_idle:
  "isMoving (fst w) = None \<Longrightarrow> placeholder (fst w) = None \<Longrightarrow>
   stopMoving opts w = (initial, (snd w)\<lparr>rootClasses := rootClasses (snd w) - {draggingClass opts}\<rparr>)"
  by (simp add: stopMoving_def removeMovingClasses_def root_removeClassName_def initial_def Let_def)

lemma host_session: "fst (final (host f w)) = fst w"
  by (simp add: host_def split: sum.splits)

lemma andThen_session:
  assumes "fst (final r) = s" "\<And>w'. fst w' = s \<Longrightarrow> fst (final (k w')) = s"
  shows "fst (final (andThen r k)) = s"
  using assms by (cases r) auto

lemma movePlaceholder_session: "fst (final (movePlaceholder opts env c w)) = fst w"
  unfolding movePlaceholder_def Let_def
  by (auto split: option.splits intro!: andThen_session simp: host_session)

lemma addMovingClasses_session: "fst (final (addMovingClasses opts w)) = fst w"
  unfolding addMovingClasses_def
  by (auto intro!: andThen_session simp: host_session)

lemma onDown_session_inv:
  "session_inv (fst w) \<Longrightarrow> session_inv (fst (final (onDown opts env ev w)))"
proof -
  assume inv: "session_inv (fst w)"
  let ?w1 = "(\<lparr>isMoving = Some (currentTarget ev),
               placeholder = Some (fst (cloneNode (currentTarget ev) (snd w)))\<rparr>,
              snd (cloneNode (currentTarget ev) (snd w)))"
  have "fst (final (andThen (movePlaceholder opts env (currentTarget ev) ?w1) (addMovingClasses opts)))
        = fst ?w1"
    by (rule andThen_session) (simp_all add: movePlaceholder_session addMovingClasses_session)
  then have "session_inv (fst (final (andThen (movePlaceholder opts env (currentTarget ev) ?w1)
                                        (addMovingClasses opts))))"
    by (simp add: session_inv_def)
  with inv show ?thesis by (simp add: onDown_def Let_def)
qed

lemma validateMove_session_inv:
  "session_inv (fst w) \<Longrightarrow> session_inv (fst (final (validateMove opts env c w)))"
  by (simp add: validateMove_def movePlaceholder_session stopMoving_session)
     (simp add: session_inv_def initial_def)

lemma onUp_session_inv:
  "session_inv (fst w) \<Longrightarrow> session_inv (fst (final (onUp opts env ev w)))"
proof -
  assume inv: "session_inv (fst w)"
  let ?r = "host (Element_insertBefore (isMoving (fst w)) (placeholder (fst w))) w"
  have "session_inv (fst (final (andThen ?r (\<lambda>w1. Returned (stopMoving opts w1)))))"
  proof (cases ?r)
    case (Returned w')
    then show ?thesis by (simp add: stopMoving_session session_inv_def initial_def)
  next
    case (Threw e w')
    with host_session[of "Element_insertBefore (isMoving (fst w)) (placeholder (fst w))" w] inv
    show ?thesis by simp
  qed
  with inv show ?thesis by (simp add: onUp_def)
qed

lemma dispatch_session_inv:
  "session_inv (fst w) \<Longrightarrow> session_inv (fst (final (dispatch opts env x w)))"
proof (cases x)
  case (PointerDown ev)
  assume "session_inv (fst w)"
  with PointerDown show ?thesis by (simp add: onDown_session_inv)
next
  case (PointerMove ev)
  assume "session_inv (fst w)"
  with PointerMove show ?thesis by (simp add: onMove_def validateMove_session_inv)
next
  case (PointerUp ev)
  assume "session_inv (fst w)"
  with PointerUp show ?thesis by (simp add: onUp_session_inv)
next
  case MouseLeave
  assume "session_inv (fst w)"
  with MouseLeave show ?thesis by (simp add: stopMoving_session session_inv_def initial_def)
next
  case StopMoving
  then show ?thesis by (simp add: stopMoving_session session_inv_def initial_def)
next
  case (ValidateMove c)
  assume "session_inv (fst w)"
  with ValidateMove show ?thesis by (simp add: validateMove_session_inv)
qed

lemma run_session_inv:
  "session_inv (fst w) \<Longrightarrow> session_inv (fst (run opts env xs w))"
  by (induction xs arbitrary: w) (simp_all add: dispatch_session_inv)

section \<open>The press on the sample list\<close>

lemma press_A:
  "onDown default_options column \<lparr>target = 0, currentTarget = 0\<rparr> (initial, abc)
   = Returned (dragging 0 3, pressed)"
  by (simp add: onDown_def default_options_def column_def initial_def abc_def selector_rejects_def
      cloneNode_def movePlaceholder_def host_def parent_insertBefore_def addMovingClasses_def
      root_addClassName_def dragging_def pressed_def fun_upd_twist)

lemma press_A_swap:
  "onDown swap_options column \<lparr>target = 0, currentTarget = 0\<rparr> (initial, abc)
   = Returned (dragging 0 3, pressed)"
  by (simp add: onDown_def swap_options_def default_options_def column_def initial_def abc_def
      selector_rejects_def cloneNode_def movePlaceholder_def host_def parent_insertBefore_def
      addMovingClasses_def root_addClassName_def dragging_def pressed_def fun_upd_twist)

text \<open>
  Two scenarios of section 8, run from the press to the release: in reorder mode \<open>A\<close>
  dragged over \<open>C\<close> gives \<open>B C A\<close>, in swap mode \<open>A\<close> dragged over \<open>B\<close> gives \<open>B A C\<close>.
\<close>

lemma scenario_reorder:
  "run default_options column
     [PointerDown \<lparr>target = 0, currentTarget = 0\<rparr>,
      PointerMove \<lparr>target = 2, currentTarget = 2\<rparr>,
      PointerUp \<lparr>target = 2, currentTarget = 2\<rparr>] (initial, abc)
   = (initial, abc\<lparr>children := [1, 2, 0], nextNode := 4\<rparr>)"
  by (simp add: onDown_def onMove_def onUp_def validateMove_def stopMoving_def
      removeMovingClasses_def Css_removeClassName_def root_removeClassName_def
      default_options_def column_def initial_def abc_def selector_rejects_def
      cloneNode_def movePlaceholder_def host_def parent_insertBefore_def addMovingClasses_def
      root_addClassName_def Let_def fun_upd_twist fun_eq_iff)

lemma scenario_swap:
  "run swap_options column
     [PointerDown \<lparr>target = 0, currentTarget = 0\<rparr>,
      PointerMove \<lparr>target = 1, currentTarget = 1\<rparr>,
      PointerUp \<lparr>target = 1, currentTarget = 1\<rparr>] (initial, abc)
   = (initial, abc\<lparr>children := [1, 0, 2], nextNode := 4\<rparr>)"
  by (simp add: onDown_def onMove_def onUp_def validateMove_def stopMoving_def
      removeMovingClasses_def Css_removeClassName_def root_removeClassName_def
      swap_options_def default_options_def column_def initial_def abc_def selector_rejects_def
      cloneNode_def movePlaceholder_def host_def parent_insertBefore_def addMovingClasses_def
      root_addClassName_def Let_def fun_upd_twist fun_eq_iff)

text \<open>
  The press on \<open>A\<close> and the move over \<open>C\<close> in swap mode: \<open>C B A P\<close>.
\<close>

lemma scenario_swap_far:
  "run swap_options column
     [PointerDown \<lparr>target = 0, currentTarget = 0\<rparr>,
      PointerMove \<lparr>target = 2, currentTarget = 2\<rparr>] (initial, abc)
   = (dragging 0 3, pressed\<lparr>children := [2, 1, 0, 3]\<rparr>)"
  by (simp add: onDown_def onMove_def onUp_def validateMove_def stopMoving_def
      removeMovingClasses_def Css_removeClassName_def root_removeClassName_def
      swap_options_def default_options_def column_def initial_def abc_def selector_rejects_def
      cloneNode_def movePlaceholder_def host_def parent_insertBefore_def addMovingClasses_def
      root_addClassName_def Let_def fun_upd_twist fun_eq_iff dragging_def pressed_def)

section \<open>Reorder mode\<close>

text \<open>
  The statements that follow are about documents in which no node occurs twice among the
  children (a node has one place in the tree) and about sessions whose placeholder is a
  node other than the dragged item (it is its clone).
\<close>

text \<open>
  C1. In reorder mode (\<open>swap = false\<close>), in an active session, for a candidate \<open>c\<close> of the
  container other than the dragged item \<open>m\<close> and the placeholder \<open>p\<close>, the placement
  decision inserts the placeholder before \<open>c\<close> exactly when \<open>(c.x > p.x) = (c.y > p.y)\<close>
  (equal offsets included) and after \<open>c\<close> otherwise, and then relocates the dragged item
  to immediately before the placeholder: the decision returns, the children end as
  \<open>\<dots> m p c \<dots>\<close> in the first case and as \<open>\<dots> c m p \<dots>\<close> in the second, and the other
  siblings keep their order.
\<close>

theorem reorder_placement:
  assumes act: "isMoving s = Some m" "placeholder s = Some p" "m \<noteq> p"
    and doc: "distinct (children d)" "c \<in> set (children d)" "c \<noteq> m" "c \<noteq> p"
    and cfg: "\<not> swap opts" "\<not> selector_rejects env d (moveSelector opts) c"
  shows "\<exists>xs. validateMove opts env c (s, d) = Returned (s, d\<lparr>children := xs\<rparr>)
         \<and> validateMove opts env c (s, d)
           = andThen (host ((if spec_places_before env d c p then Element_insertBefore
                             else Element_insertAfter) (Some p) (Some c)) (s, d))
               (host (Element_insertBefore (Some m) (Some p)))
         \<and> (if spec_places_before env d c p then nextSibling p xs = Some c
            else nextSibling c xs = Some m)
         \<and> nextSibling m xs = Some p
         \<and> (precedes p c xs \<longleftrightarrow> spec_places_before env d c p)
         \<and> removeAll m (removeAll p xs) = removeAll m (removeAll p (children d))"
proof -
  let ?xs = "reorder_steps (spec_places_before env d c p) m p c (children d)"
  note sh = reorder_shape[OF doc(1,2) act(3) doc(3,4), of "spec_places_before env d c p"]
  have vm: "validateMove opts env c (s, d) = movePlaceholder opts env c (s, d)"
    using act doc cfg by (simp add: validateMove_def)
  show ?thesis
  proof (intro exI[of _ ?xs] conjI)
    show "validateMove opts env c (s, d) = Returned (s, d\<lparr>children := ?xs\<rparr>)"
      by (simp only: vm movePlaceholder_reorder[OF act doc cfg(1)])
    show "validateMove opts env c (s, d)
           = andThen (host ((if spec_places_before env d c p then Element_insertBefore
                             else Element_insertAfter) (Some p) (Some c)) (s, d))
               (host (Element_insertBefore (Some m) (Some p)))"
      by (simp only: vm movePlaceholder_reorder_calls[OF act(1,2) cfg(1)])
    show "if spec_places_before env d c p then nextSibling p ?xs = Some c
          else nextSibling c ?xs = Some m"
      by (rule sh[THEN conjunct2, THEN conjunct2, THEN conjunct1])
    show "nextSibling m ?xs = Some p"
      by (rule sh[THEN conjunct2, THEN conjunct1])
    show "precedes p c ?xs \<longleftrightarrow> spec_places_before env d c p"
      by (rule sh[THEN conjunct2, THEN conjunct2, THEN conjunct2, THEN conjunct1])
    show "removeAll m (removeAll p ?xs) = removeAll m (removeAll p (children d))"
      by (rule sh[THEN conjunct2, THEN conjunct2, THEN conjunct2, THEN conjunct2, THEN conjunct1])
  qed
qed

theorem reorder_placement_witness:
  "\<exists>xs. validateMove default_options column 2 (dragging 0 3, pressed)
           = Returned (dragging 0 3, pressed\<lparr>children := xs\<rparr>)
         \<and> validateMove default_options column 2 (dragging 0 3, pressed)
           = andThen (host ((if spec_places_before column pressed 2 3 then Element_insertBefore
                             else Element_insertAfter) (Some 3) (Some 2)) (dragging 0 3, pressed))
               (host (Element_insertBefore (Some 0) (Some 3)))
         \<and> (if spec_places_before column pressed 2 3 then nextSibling 3 xs = Some 2
            else nextSibling 2 xs = Some 0)
         \<and> nextSibling 0 xs = Some 3
         \<and> (precedes 3 2 xs \<longleftrightarrow> spec_places_before column pressed 2 3)
         \<and> removeAll 0 (removeAll 3 xs) = removeAll 0 (removeAll 3 (children pressed))"
  by (rule reorder_placement)
     (simp_all add: dragging_def pressed_def default_options_def selector_rejects_def)

section \<open>Swap mode\<close>

text \<open>
  C2, as amended. In swap mode, in an active session, for a candidate \<open>c\<close> other than the
  dragged item \<open>m\<close> and the placeholder \<open>p\<close> that the move selector admits, the placement
  decision is exactly three relocations: \<open>p\<close> to immediately after \<open>c\<close>, then \<open>c\<close> to
  immediately before \<open>m\<close>, then \<open>m\<close> to immediately before \<open>p\<close>. It returns whenever \<open>c\<close>
  and \<open>m\<close> are in the container. Whenever it returns, only the child sequence has changed:
  among the siblings other than the placeholder, \<open>c\<close> and \<open>m\<close> have traded places and no
  other sibling has moved, and the placeholder is left immediately after the dragged item.
\<close>

theorem swap_placement:
  assumes act: "isMoving s = Some m" "placeholder s = Some p" "m \<noteq> p"
    and doc: "distinct (children d)"
    and cand: "c \<noteq> m" "c \<noteq> p"
    and cfg: "swap opts" "\<not> selector_rejects env d (moveSelector opts) c"
  shows "validateMove opts env c (s, d)
           = andThen (andThen (host (Element_insertAfter (Some p) (Some c)) (s, d))
                        (host (Element_insertBefore (Some c) (Some m))))
               (host (Element_insertBefore (Some m) (Some p)))
       \<and> (c \<in> set (children d) \<and> m \<in> set (children d)
            \<longrightarrow> (\<exists>xs. validateMove opts env c (s, d) = Returned (s, d\<lparr>children := xs\<rparr>)))
       \<and> (\<forall>w'. validateMove opts env c (s, d) = Returned w'
            \<longrightarrow> w' = (s, d\<lparr>children := children (snd w')\<rparr>)
              \<and> removeAll p (children (snd w')) = map (exchange m c) (removeAll p (children d))
              \<and> nextSibling m (children (snd w')) = Some p)"
proof -
  let ?xs = "swap_steps m p c (children d)"
  have vm: "validateMove opts env c (s, d) = movePlaceholder opts env c (s, d)"
    using act cand cfg by (simp add: validateMove_def)
  have res: "validateMove opts env c (s, d) = Returned (s, d\<lparr>children := ?xs\<rparr>)"
    if "c \<in> set (children d)" "m \<in> set (children d)"
    by (simp only: vm movePlaceholder_swap[OF act doc that(2,1) cand cfg(1)])
  have attached: "c \<in> set (children d) \<and> m \<in> set (children d)"
    if r: "validateMove opts env c (s, d) = Returned w'" for w'
  proof -
    have 1: "c \<in> set (children d)"
    proof (rule ccontr)
      assume "c \<notin> set (children d)"
      from movePlaceholder_detached[OF act(2) this] r vm show False by simp
    qed
    have 2: "m \<in> set (children d)"
    proof (rule ccontr)
      assume "m \<notin> set (children d)"
      from movePlaceholder_swap_detached[OF act 1 this cfg(1), of env]
      obtain w where "movePlaceholder opts env c (s, d) = Threw DetachedReference w" by auto
      with r vm show False by simp
    qed
    from 1 2 show ?thesis by (rule conjI)
  qed
  show ?thesis
  proof (intro conjI impI allI)
    show "validateMove opts env c (s, d)
           = andThen (andThen (host (Element_insertAfter (Some p) (Some c)) (s, d))
                        (host (Element_insertBefore (Some c) (Some m))))
               (host (Element_insertBefore (Some m) (Some p)))"
      by (simp only: vm movePlaceholder_swap_calls[OF act(1,2) cfg(1)])
  next
    assume "c \<in> set (children d) \<and> m \<in> set (children d)"
    then have "validateMove opts env c (s, d) = Returned (s, d\<lparr>children := ?xs\<rparr>)"
      using res by simp
    then show "\<exists>xs. validateMove opts env c (s, d) = Returned (s, d\<lparr>children := xs\<rparr>)"
      by (rule exI)
  next
    fix w' assume r: "validateMove opts env c (s, d) = Returned w'"
    from attached[OF r] have a: "c \<in> set (children d)" "m \<in> set (children d)" by simp_all
    from res[OF a] r have w: "w' = (s, d\<lparr>children := ?xs\<rparr>)" by simp
    note sh = swap_shape[OF doc a(2,1) act(3) cand]
    show "w' = (s, d\<lparr>children := children (snd w')\<rparr>)" by (simp add: w)
    show "removeAll p (children (snd w')) = map (exchange m c) (removeAll p (children d))"
      using sh[THEN conjunct2, THEN conjunct2, THEN conjunct2, THEN conjunct1] by (simp add: w)
    show "nextSibling m (children (snd w')) = Some p"
      using sh[THEN conjunct2, THEN conjunct2, THEN conjunct1] by (simp add: w)
  qed
qed

theorem swap_placement_witness:
  "\<exists>xs. validateMove swap_options column 2 (dragging 0 3, pressed)
           = Returned (dragging 0 3, pressed\<lparr>children := xs\<rparr>)
         \<and> validateMove swap_options column 2 (dragging 0 3, pressed)
           = andThen (andThen (host (Element_insertAfter (Some 3) (Some 2)) (dragging 0 3, pressed))
                        (host (Element_insertBefore (Some 2) (Some 0))))
               (host (Element_insertBefore (Some 0) (Some 3)))
         \<and> removeAll 3 xs = map (exchange 0 2) (removeAll 3 (children pressed))
         \<and> nextSibling 0 xs = Some 3"
proof -
  have h: "isMoving (dragging 0 3) = Some 0" "placeholder (dragging 0 3) = Some 3" "(0::nat) \<noteq> 3"
    "distinct (children pressed)" "(2::nat) \<noteq> 0" "(2::nat) \<noteq> 3"
    "swap swap_options" "\<not> selector_rejects column pressed (moveSelector swap_options) 2"
    by (simp_all add: dragging_def pressed_def selector_rejects_def swap_options_def
        default_options_def)
  note t = swap_placement[OF h]
  have a: "2 \<in> set (children pressed) \<and> 0 \<in> set (children pressed)"
    by (simp add: pressed_def)
  from t[THEN conjunct2, THEN conjunct1] a obtain xs where
    r: "validateMove swap_options column 2 (dragging 0 3, pressed)
        = Returned (dragging 0 3, pressed\<lparr>children := xs\<rparr>)"
    by blast
  from t[THEN conjunct2, THEN conjunct2] r
  have "removeAll 3 (children (snd (dragging 0 3, pressed\<lparr>children := xs\<rparr>)))
          = map (exchange 0 2) (removeAll 3 (children pressed))
        \<and> nextSibling 0 (children (snd (dragging 0 3, pressed\<lparr>children := xs\<rparr>))) = Some 3"
    by blast
  then have b: "removeAll 3 xs = map (exchange 0 2) (removeAll 3 (children pressed))"
    "nextSibling 0 xs = Some 3" by simp_all
  show ?thesis
    by (intro exI[of _ xs] conjI r t[THEN conjunct1] b)
qed

text \<open>
  C2 as stated fails in its last part. In the list \<open>A P B C\<close> that the press on \<open>A\<close> leaves,
  the move over \<open>C\<close> gives \<open>C B A P\<close>: \<open>C\<close> is first, the placeholder is last, and they
  are not neighbours.
\<close>

theorem swap_placeholder_counterexample:
  "validateMove swap_options column 2 (dragging 0 3, pressed)
   = Returned (dragging 0 3, pressed\<lparr>children := [2, 1, 0, 3]\<rparr>)
   \<and> \<not> adjacent 3 2 [2, 1, 0, 3]"
  by (simp add: validateMove_def movePlaceholder_def host_def parent_insertBefore_def
      swap_options_def default_options_def selector_rejects_def dragging_def pressed_def
      adjacent_def)

section \<open>Cancelling\<close>

text \<open>
  C3. In an active session, when a move selector is configured and the candidate passed to
  \<^verbatim>\<open>validateMove\<close> (other than the dragged item and the placeholder) does not match it, the
  gesture is cancelled and not ignored: \<^verbatim>\<open>stopMoving\<close> runs, which removes the visual
  markers, takes the placeholder out of the container and leaves every other sibling where
  it was, and clears both session fields. Afterwards a press on an item of the container
  (one that the handle selector, if any, admits) starts a new session, with a new
  placeholder right after the pressed item.
\<close>

theorem disallowed_move_cancels:
  assumes act: "isMoving s = Some m" "placeholder s = Some p" "m \<noteq> p"
    and cand: "c \<noteq> m" "c \<noteq> p" "selector_rejects env d (moveSelector opts) c"
    and doc: "distinct (children d)" "\<forall>n \<in> set (children d). n < nextNode d"
    and ev: "currentTarget ev \<in> set (children d)" "currentTarget ev \<noteq> p"
      "\<not> selector_rejects env (snd (stopMoving opts (s, d))) (handleSelector opts) (target ev)"
  shows "validateMove opts env c (s, d) = Returned (stopMoving opts (s, d))
       \<and> stopMoving opts (s, d)
         = (initial,
            d\<lparr>children := removeAll p (children d),
              classes := (classes d)(m := classes d m - {draggedClass opts},
                                     p := classes d p - {placeholderClass opts}),
              rootClasses := rootClasses d - {draggingClass opts}\<rparr>)
       \<and> (\<exists>d'. onDown opts env ev (stopMoving opts (s, d))
                  = Returned (dragging (currentTarget ev) (nextNode d), d')
              \<and> nextSibling (currentTarget ev) (children d') = Some (nextNode d)
              \<and> removeAll (nextNode d) (children d') = removeAll p (children d))"
proof (intro conjI)
  show "validateMove opts env c (s, d) = Returned (stopMoving opts (s, d))"
    using act cand by (auto simp: validateMove_def)
  show st: "stopMoving opts (s, d)
         = (initial,
            d\<lparr>children := removeAll p (children d),
              classes := (classes d)(m := classes d m - {draggedClass opts},
                                     p := classes d p - {placeholderClass opts}),
              rootClasses := rootClasses d - {draggingClass opts}\<rparr>)"
    by (rule stopMoving_active[OF act])
  let ?d = "snd (stopMoving opts (s, d))"
  have 1: "children ?d = removeAll p (children d)" "nextNode ?d = nextNode d"
    by (simp_all add: st)
  have 2: "isMoving (fst (stopMoving opts (s, d))) = None"
    "placeholder (fst (stopMoving opts (s, d))) = None"
    by (simp_all add: st initial_def)
  have 3: "distinct (children ?d)" "currentTarget ev \<in> set (children ?d)"
    "nextNode ?d \<notin> set (children ?d)"
    using doc ev by (auto simp: 1 distinct_removeAll)
  from onDown_starts[OF 2 ev(3) 3]
  show "\<exists>d'. onDown opts env ev (stopMoving opts (s, d))
                  = Returned (dragging (currentTarget ev) (nextNode d), d')
              \<and> nextSibling (currentTarget ev) (children d') = Some (nextNode d)
              \<and> removeAll (nextNode d) (children d') = removeAll p (children d)"
    by (simp add: 1)
qed

theorem disallowed_move_cancels_witness:
  "validateMove move_options column 2 (dragging 0 3, pressed)
     = Returned (stopMoving move_options (dragging 0 3, pressed))
   \<and> (\<exists>d'. onDown move_options column \<lparr>target = 1, currentTarget = 1\<rparr>
                 (stopMoving move_options (dragging 0 3, pressed))
               = Returned (dragging 1 4, d')
             \<and> nextSibling 1 (children d') = Some 4
             \<and> removeAll 4 (children d') = [0, 1, 2])"
proof -
  have h: "isMoving (dragging 0 3) = Some 0" "placeholder (dragging 0 3) = Some 3" "(0::nat) \<noteq> 3"
    "(2::nat) \<noteq> 0" "(2::nat) \<noteq> 3"
    "selector_rejects column pressed (moveSelector move_options) 2"
    "distinct (children pressed)" "\<forall>n \<in> set (children pressed). n < nextNode pressed"
    "currentTarget \<lparr>target = 1, currentTarget = 1\<rparr> \<in> set (children pressed)"
    "currentTarget \<lparr>target = 1, currentTarget = 1\<rparr> \<noteq> (3::nat)"
    "\<not> selector_rejects column (snd (stopMoving move_options (dragging 0 3, pressed)))
         (handleSelector move_options) (target \<lparr>target = 1, currentTarget = 1\<rparr>)"
    by (simp_all add: dragging_def pressed_def selector_rejects_def move_options_def
        default_options_def column_def)
  note t = disallowed_move_cancels[OF h]
  have a: "validateMove move_options column 2 (dragging 0 3, pressed)
           = Returned (stopMoving move_options (dragging 0 3, pressed))"
    by (rule t[THEN conjunct1])
  have n: "nextNode pressed = 4" "removeAll 3 (children pressed) = [0, 1, 2]"
    "currentTarget \<lparr>target = 1, currentTarget = 1\<rparr> = (1::nat)"
    by (simp_all add: pressed_def)
  from t[THEN conjunct2, THEN conjunct2]
  have "\<exists>d'. onDown move_options column \<lparr>target = 1, currentTarget = 1\<rparr>
                 (stopMoving move_options (dragging 0 3, pressed))
               = Returned (dragging 1 4, d')
             \<and> nextSibling 1 (children d') = Some 4
             \<and> removeAll 4 (children d') = [0, 1, 2]"
    by (simp only: n)
  with a show ?thesis by (rule conjI)
qed

section \<open>Releasing\<close>

text \<open>
  C4. On pointer-up in an active session whose placeholder is in the container, when the
  release target is neither the dragged item nor the placeholder, the dragged item is
  relocated to immediately before the
  placeholder and then the cleanup runs: the dragged item ends in the placeholder's place,
  the placeholder is out of the container, the markers are removed, both session fields
  are cleared.
\<close>

theorem pointer_up_commits:
  assumes act: "isMoving s = Some m" "placeholder s = Some p" "m \<noteq> p"
    and doc: "distinct (children d)" "p \<in> set (children d)"
    and ev: "currentTarget ev \<noteq> m" "currentTarget ev \<noteq> p"
  shows "onUp opts env ev (s, d)
         = andThen (host (Element_insertBefore (Some m) (Some p)) (s, d))
             (\<lambda>w. Returned (stopMoving opts w))
       \<and> onUp opts env ev (s, d)
         = Returned (initial,
             d\<lparr>children := map (\<lambda>x. if x = p then m else x) (removeAll m (children d)),
               classes := (classes d)(m := classes d m - {draggedClass opts},
                                      p := classes d p - {placeholderClass opts}),
               rootClasses := rootClasses d - {draggingClass opts}\<rparr>)"
proof -
  have calls: "onUp opts env ev (s, d)
         = andThen (host (Element_insertBefore (Some m) (Some p)) (s, d))
             (\<lambda>w. Returned (stopMoving opts w))"
    using act ev by (auto simp: onUp_def)
  have "andThen (host (Element_insertBefore (Some m) (Some p)) (s, d))
             (\<lambda>w. Returned (stopMoving opts w))
        = Returned (stopMoving opts
            (s, d\<lparr>children := parent_insertBefore m (Some p) (children d)\<rparr>))"
    using doc(2) by (simp add: host_insertBefore)
  also have "\<dots> = Returned (initial,
             d\<lparr>children := map (\<lambda>x. if x = p then m else x) (removeAll m (children d)),
               classes := (classes d)(m := classes d m - {draggedClass opts},
                                      p := classes d p - {placeholderClass opts}),
               rootClasses := rootClasses d - {draggingClass opts}\<rparr>)"
    by (simp add: stopMoving_active[OF act] commit_shape[OF doc act(3)])
  finally show ?thesis using calls by simp
qed

theorem pointer_up_commits_witness:
  "onUp default_options column \<lparr>target = 2, currentTarget = 2\<rparr> (dragging 0 3, moved)
   = Returned (initial,
       moved\<lparr>children := map (\<lambda>x. if x = 3 then 0 else x) (removeAll 0 (children moved)),
         classes := (classes moved)(0 := classes moved 0 - {draggedClass default_options},
                                    3 := classes moved 3 - {placeholderClass default_options}),
         rootClasses := rootClasses moved - {draggingClass default_options}\<rparr>)"
  by (rule pointer_up_commits[THEN conjunct2])
     (simp_all add: dragging_def moved_def pressed_def)

section \<open>The session invariant\<close>

text \<open>
  C5. The two session fields are both set or both absent: this holds initially, every
  operation of the component (pointer-down, pointer-move, pointer-up, mouse-leave,
  \<^verbatim>\<open>validateMove\<close>, \<^verbatim>\<open>stopMoving\<close>) preserves it, whether it returns or is left by a fault of
  the host, and so it holds after every sequence of operations.
\<close>

theorem session_invariant:
  "session_inv initial
   \<and> (session_inv (fst w) \<longrightarrow> session_inv (fst (final (dispatch opts env x w))))
   \<and> session_inv (fst (run opts env xs (initial, d)))"
proof (intro conjI impI)
  show i: "session_inv initial" by (simp add: session_inv_def initial_def)
  show "session_inv (fst (final (dispatch opts env x w)))" if "session_inv (fst w)"
    using that by (rule dispatch_session_inv)
  show "session_inv (fst (run opts env xs (initial, d)))"
    using i by (intro run_session_inv) simp
qed

theorem session_invariant_witness:
  "session_inv (fst (final (dispatch default_options column
      (PointerDown \<lparr>target = 0, currentTarget = 0\<rparr>) (initial, abc))))
   \<and> session_inv (fst (run default_options column
      [PointerDown \<lparr>target = 0, currentTarget = 0\<rparr>,
       PointerMove \<lparr>target = 2, currentTarget = 2\<rparr>,
       PointerUp \<lparr>target = 2, currentTarget = 2\<rparr>] (initial, abc)))"
proof -
  note t = session_invariant[of "(initial, abc)" default_options column
      "PointerDown \<lparr>target = 0, currentTarget = 0\<rparr>"
      "[PointerDown \<lparr>target = 0, currentTarget = 0\<rparr>,
        PointerMove \<lparr>target = 2, currentTarget = 2\<rparr>,
        PointerUp \<lparr>target = 2, currentTarget = 2\<rparr>]" abc]
  from t have "session_inv (fst (initial, abc))" by simp
  with t show ?thesis by blast
qed

section \<open>Moves that change nothing\<close>

text \<open>
  C6. When no gesture is active, and when the candidate is the dragged item or the
  placeholder, \<^verbatim>\<open>validateMove\<close> leaves the session and the document as they are.
\<close>

theorem validateMove_noop:
  assumes "isMoving s = None \<or> placeholder s = None \<or> Some c = isMoving s \<or> Some c = placeholder s"
  shows "validateMove opts env c (s, d) = Returned (s, d)"
  using assms by (auto simp: validateMove_def)

theorem validateMove_noop_witness:
  "validateMove default_options column 1 (initial, abc) = Returned (initial, abc)
   \<and> validateMove default_options column 0 (dragging 0 3, pressed) = Returned (dragging 0 3, pressed)
   \<and> validateMove default_options column 3 (dragging 0 3, pressed) = Returned (dragging 0 3, pressed)"
proof (intro conjI)
  show "validateMove default_options column 1 (initial, abc) = Returned (initial, abc)"
    by (rule validateMove_noop) (simp add: initial_def)
  show "validateMove default_options column 0 (dragging 0 3, pressed) = Returned (dragging 0 3, pressed)"
    by (rule validateMove_noop) (simp add: dragging_def)
  show "validateMove default_options column 3 (dragging 0 3, pressed) = Returned (dragging 0 3, pressed)"
    by (rule validateMove_noop) (simp add: dragging_def)
qed

section \<open>Stopping\<close>

text \<open>
  C7. \<^verbatim>\<open>stopMoving\<close> is idempotent: a second call changes nothing. It always returns and
  leaves both session fields absent; called from Idle it only removes the dragging class
  from the root and leaves the tree alone.
\<close>

theorem stopMoving_idempotent:
  "stopMoving opts (stopMoving opts w) = stopMoving opts w
   \<and> fst (stopMoving opts w) = initial
   \<and> dispatch opts env StopMoving w = Returned (stopMoving opts w)
   \<and> (fst w = initial \<longrightarrow>
        stopMoving opts w = (initial, (snd w)\<lparr>rootClasses := rootClasses (snd w) - {draggingClass opts}\<rparr>))"
proof (intro conjI impI)
  have "isMoving (fst (stopMoving opts w)) = None" "placeholder (fst (stopMoving opts w)) = None"
    by (simp_all add: stopMoving_session initial_def)
  from stopMoving_idle[OF this, of opts]
  show "stopMoving opts (stopMoving opts w) = stopMoving opts w"
    by (simp add: stopMoving_def removeMovingClasses_def root_removeClassName_def initial_def
        Let_def split: option.splits)
  show "fst (stopMoving opts w) = initial" by (rule stopMoving_session)
  show "dispatch opts env StopMoving w = Returned (stopMoving opts w)" by simp
  assume "fst w = initial"
  then show "stopMoving opts w
             = (initial, (snd w)\<lparr>rootClasses := rootClasses (snd w) - {draggingClass opts}\<rparr>)"
    by (intro stopMoving_idle) (simp_all add: initial_def)
qed

theorem stopMoving_idempotent_witness:
  "stopMoving default_options (stopMoving default_options (dragging 0 3, pressed))
     = stopMoving default_options (dragging 0 3, pressed)
   \<and> stopMoving default_options (initial, abc)
     = (initial, abc\<lparr>rootClasses := rootClasses abc - {draggingClass default_options}\<rparr>)"
proof -
  have "fst (initial, abc) = initial" by simp
  with stopMoving_idempotent[of default_options "(initial, abc)" column]
  have "stopMoving default_options (initial, abc)
        = (initial, abc\<lparr>rootClasses := rootClasses abc - {draggingClass default_options}\<rparr>)"
    by simp
  with stopMoving_idempotent[of default_options "(dragging 0 3, pressed)" column]
  show ?thesis by simp
qed

section \<open>The placement without a placeholder\<close>


section \<open>Presses that are ignored\<close>

text \<open>
  C9. A pointer-down changes neither the session nor the document when a session is
  active (either field set), so a second press while dragging starts nothing, and when a
  handle selector is configured that the target of the event does not match.
\<close>

theorem onDown_ignored:
  assumes "isMoving s \<noteq> None \<or> placeholder s \<noteq> None
           \<or> selector_rejects env d (handleSelector opts) (target ev)"
  shows "onDown opts env ev (s, d) = Returned (s, d)"
  using assms by (auto simp: onDown_def)

theorem onDown_ignored_witness:
  "onDown default_options column \<lparr>target = 1, currentTarget = 1\<rparr> (dragging 0 3, pressed)
     = Returned (dragging 0 3, pressed)
   \<and> onDown handle_options column \<lparr>target = 1, currentTarget = 1\<rparr> (initial, abc)
     = Returned (initial, abc)"
proof (intro conjI)
  show "onDown default_options column \<lparr>target = 1, currentTarget = 1\<rparr> (dragging 0 3, pressed)
        = Returned (dragging 0 3, pressed)"
    by (rule onDown_ignored) (simp add: dragging_def)
  show "onDown handle_options column \<lparr>target = 1, currentTarget = 1\<rparr> (initial, abc)
        = Returned (initial, abc)"
    by (rule onDown_ignored)
       (simp add: selector_rejects_def handle_options_def default_options_def column_def abc_def)
qed

section \<open>The dragged item stays in front of the placeholder\<close>

text \<open>
  C10. In an active session, a placement decision for a candidate that the move selector
  admits returns whenever the candidate (and, in swap mode, the dragged item) is in the
  container, and whenever it returns, in swap mode and in reorder mode alike, the session
  is unchanged and the dragged item is the sibling immediately before the placeholder.
\<close>

theorem dragged_item_precedes_placeholder:
  assumes act: "isMoving s = Some m" "placeholder s = Some p" "m \<noteq> p"
    and doc: "distinct (children d)"
    and cand: "c \<noteq> m" "c \<noteq> p" "\<not> selector_rejects env d (moveSelector opts) c"
  shows "(c \<in> set (children d) \<and> (swap opts \<longrightarrow> m \<in> set (children d))
          \<longrightarrow> (\<exists>d'. validateMove opts env c (s, d) = Returned (s, d')))
       \<and> (\<forall>w'. validateMove opts env c (s, d) = Returned w'
          \<longrightarrow> fst w' = s \<and> nextSibling m (children (snd w')) = Some p)"
proof -
  have vm: "validateMove opts env c (s, d) = movePlaceholder opts env c (s, d)"
    using act cand by (simp add: validateMove_def)
  have key: "validateMove opts env c (s, d) = Returned w' \<Longrightarrow>
             c \<in> set (children d) \<and> (swap opts \<longrightarrow> m \<in> set (children d))" for w'
  proof -
    assume r: "validateMove opts env c (s, d) = Returned w'"
    have 1: "c \<in> set (children d)"
    proof (rule ccontr)
      assume "c \<notin> set (children d)"
      from movePlaceholder_detached[OF act(2) this] r vm show False by simp
    qed
    have 2: "m \<in> set (children d)" if "swap opts"
    proof (rule ccontr)
      assume "m \<notin> set (children d)"
      from movePlaceholder_swap_detached[OF act 1 this that, of env]
      obtain w where "movePlaceholder opts env c (s, d) = Threw DetachedReference w" by auto
      with r vm show False by simp
    qed
    from 1 2 show ?thesis by simp
  qed
  have res: "\<exists>xs. validateMove opts env c (s, d) = Returned (s, d\<lparr>children := xs\<rparr>)
                 \<and> nextSibling m xs = Some p"
    if a: "c \<in> set (children d)" "swap opts \<longrightarrow> m \<in> set (children d)"
  proof (cases "swap opts")
    case True
    with a have m: "m \<in> set (children d)" by simp
    have "validateMove opts env c (s, d)
          = Returned (s, d\<lparr>children := swap_steps m p c (children d)\<rparr>)"
      by (simp only: vm movePlaceholder_swap[OF act doc m a(1) cand(1,2) True])
    moreover have "nextSibling m (swap_steps m p c (children d)) = Some p"
      by (rule swap_shape[OF doc m a(1) act(3) cand(1,2), THEN conjunct2, THEN conjunct2,
            THEN conjunct1])
    ultimately show ?thesis by (intro exI conjI)
  next
    case False
    have "validateMove opts env c (s, d)
          = Returned (s, d\<lparr>children :=
              reorder_steps (spec_places_before env d c p) m p c (children d)\<rparr>)"
      by (simp only: vm movePlaceholder_reorder[OF act doc a(1) cand(1,2) False])
    moreover have "nextSibling m (reorder_steps (spec_places_before env d c p) m p c (children d))
                   = Some p"
      by (rule reorder_shape[OF doc a(1) act(3) cand(1,2), THEN conjunct2, THEN conjunct1])
    ultimately show ?thesis by (intro exI conjI)
  qed
  show ?thesis
  proof (intro conjI impI allI)
    assume "c \<in> set (children d) \<and> (swap opts \<longrightarrow> m \<in> set (children d))"
    with res show "\<exists>d'. validateMove opts env c (s, d) = Returned (s, d')" by metis
  next
    fix w' assume r: "validateMove opts env c (s, d) = Returned w'"
    from key[OF r] res obtain xs where
      "validateMove opts env c (s, d) = Returned (s, d\<lparr>children := xs\<rparr>)"
      "nextSibling m xs = Some p" by auto
    with r have "w' = (s, d\<lparr>children := xs\<rparr>)" by simp
    with \<open>nextSibling m xs = Some p\<close>
    show "fst w' = s" "nextSibling m (children (snd w')) = Some p" by simp_all
  qed
qed

theorem dragged_item_precedes_placeholder_witness:
  "\<exists>d'. validateMove default_options column 2 (dragging 0 3, pressed) = Returned (dragging 0 3, d')
        \<and> nextSibling 0 (children d') = Some 3"
proof -
  have h: "isMoving (dragging 0 3) = Some 0" "placeholder (dragging 0 3) = Some 3" "(0::nat) \<noteq> 3"
    "distinct (children pressed)" "(2::nat) \<noteq> 0" "(2::nat) \<noteq> 3"
    "\<not> selector_rejects column pressed (moveSelector default_options) 2"
    by (simp_all add: dragging_def pressed_def selector_rejects_def default_options_def)
  have a: "2 \<in> set (children pressed) \<and> (swap default_options \<longrightarrow> 0 \<in> set (children pressed))"
    by (simp add: pressed_def)
  note t = dragged_item_precedes_placeholder[OF h]
  from t a obtain d' where
    r: "validateMove default_options column 2 (dragging 0 3, pressed) = Returned (dragging 0 3, d')"
    by blast
  with t have "nextSibling 0 (children (snd (dragging 0 3, d'))) = Some 3" by blast
  with r show ?thesis by auto
qed

end
